theory Spec2Isabelle
  imports Main
begin

section \<open>The delimiter checker of \<^verbatim>\<open>check_braces.py\<close>\<close>

text \<open>
  The script reads a file, scans it line by line and character by character with a stack of
  open delimiters and two context flags, and prints exactly one diagnostic. The model keeps
  the names of the script. Characters are \<^typ>\<open>char\<close> (code points below 256), line and
  column numbers are natural numbers, and Python's list used as a stack is a list whose last
  element is the top (\<^verbatim>\<open>append\<close>, \<^verbatim>\<open>pop\<close>, \<^verbatim>\<open>stack[-1]\<close>).
\<close>

subsection \<open>Data\<close>

type_synonym opener = "char \<times> nat \<times> nat"

record scan_state =
  stack :: "opener list"
  in_string :: bool
  string_char :: string
  in_comment :: bool

text \<open>The values of the local variables before the outer loop.\<close>

definition init :: scan_state where
  "init = \<lparr>stack = [], in_string = False, string_char = [], in_comment = False\<rparr>"

text \<open>The dictionary \<^verbatim>\<open>delims\<close>, in the order it is written.\<close>

definition delims :: "(char \<times> char) list" where
  "delims = [(CHR ''{'', CHR ''}''), (CHR ''('', CHR '')''), (CHR ''['', CHR '']'')]"

definition delims_keys :: "char list" where
  "delims_keys = map fst delims"

definition delims_values :: "char list" where
  "delims_values = map snd delims"

text \<open>The double quote, the single quote and the backslash.\<close>

definition dquote :: char where
  "dquote = CHR 0x22"

definition squote :: char where
  "squote = CHR 0x27"

definition backslash :: char where
  "backslash = CHR 0x5C"

text \<open>Exceptions that the script does not catch, and the four diagnostics it prints.\<close>

datatype exn = KeyError | OtherOpenError

datatype outcome =
    Balanced
  | UnmatchedCloser char nat nat
  | MismatchedCloser char nat nat char nat nat
  | UnclosedOpeners char nat nat nat

text \<open>How one pass through the body of the inner loop ends.\<close>

datatype ctl = Continue scan_state | Break | Return outcome | Raise exn

text \<open>How a loop ends: it runs to its end, or the function returns or raises inside it.\<close>

datatype loop = Fallthrough scan_state | Returned outcome | Raised exn

subsection \<open>\<^verbatim>\<open>str.rstrip()\<close>\<close>

text \<open>The whitespace characters below code point 256, as \<^verbatim>\<open>str.isspace\<close> has them.\<close>

definition is_space :: "char \<Rightarrow> bool" where
  "is_space c = (let n = (of_char c :: nat) in
     (9 \<le> n \<and> n \<le> 13) \<or> (28 \<le> n \<and> n \<le> 32) \<or> n = 133 \<or> n = 160)"

definition rstrip :: "string \<Rightarrow> string" where
  "rstrip s = rev (dropWhile is_space (rev s))"

subsection \<open>The body of the inner loop\<close>

definition step :: "nat \<Rightarrow> string \<Rightarrow> nat \<Rightarrow> scan_state \<Rightarrow> ctl" where
  "step i line j st = (let char = line ! j in
     if in_comment st then Continue st
     else if char = CHR ''/'' \<and> j + 1 < length line \<and> line ! (j + 1) = CHR ''/'' then Break
     else if char = dquote \<or> char = squote then
       (if \<not> in_string st then Continue (st\<lparr>in_string := True, string_char := [char]\<rparr>)
        else if [char] = string_char st then
          (if j > 0 \<and> line ! (j - 1) = backslash then Continue st
           else Continue (st\<lparr>in_string := False\<rparr>))
        else Continue st)
     else if in_string st then Continue st
     else if char \<in> set delims_keys then
       Continue (st\<lparr>stack := stack st @ [(char, i + 1, j + 1)]\<rparr>)
     else if char \<in> set delims_values then
       (if stack st = [] then Return (UnmatchedCloser char (i + 1) (j + 1))
        else (case last (stack st) of (start_char, start_line, start_col) \<Rightarrow>
          (case map_of delims start_char of
             None \<Rightarrow> Raise KeyError
           | Some expected_end \<Rightarrow>
               if char \<noteq> expected_end
               then Return (MismatchedCloser char (i + 1) (j + 1) expected_end start_line start_col)
               else Continue (st\<lparr>stack := butlast (stack st)\<rparr>))))
     else Continue st)"

subsection \<open>The two loops\<close>

text \<open>\<^verbatim>\<open>for j, char in enumerate(line)\<close>, from index \<open>j\<close> on.\<close>

function scan_line :: "nat \<Rightarrow> string \<Rightarrow> nat \<Rightarrow> scan_state \<Rightarrow> loop" where
  "scan_line i line j st =
     (if j < length line then
        (case step i line j st of
           Continue st' \<Rightarrow> scan_line i line (j + 1) st'
         | Break \<Rightarrow> Fallthrough st
         | Return r \<Rightarrow> Returned r
         | Raise e \<Rightarrow> Raised e)
      else Fallthrough st)"
  by pat_completeness auto
termination
  by (relation "measure (\<lambda>(i, line, j, st). length line - j)") auto

declare scan_line.simps [simp del]

text \<open>\<^verbatim>\<open>for i, line in enumerate(lines)\<close>, from index \<open>i\<close> on; each line is stripped first.\<close>

fun scan_lines :: "nat \<Rightarrow> string list \<Rightarrow> scan_state \<Rightarrow> loop" where
  "scan_lines i [] st = Fallthrough st"
| "scan_lines i (line # rest) st =
     (case scan_line i (rstrip line) 0 st of
        Fallthrough st' \<Rightarrow> scan_lines (i + 1) rest st'
      | Returned r \<Rightarrow> Returned r
      | Raised e \<Rightarrow> Raised e)"

subsection \<open>The function\<close>

text \<open>The part of \<^verbatim>\<open>check_braces\<close> after the file is read: the loops and the final test of the stack.\<close>

definition scan :: "string list \<Rightarrow> exn + outcome" where
  "scan lines =
     (case scan_lines 0 lines init of
        Fallthrough st \<Rightarrow>
          (if stack st \<noteq> [] then
             (case last (stack st) of (start_char, start_line, start_col) \<Rightarrow>
                Inr (UnclosedOpeners start_char start_line start_col (length (stack st))))
           else Inr Balanced)
      | Returned r \<Rightarrow> Inr r
      | Raised e \<Rightarrow> Inl e)"

text \<open>Decimal digits of a number, as an f-string prints an \<^verbatim>\<open>int\<close>.\<close>

fun str_nat :: "nat \<Rightarrow> string" where
  "str_nat n = (if n < 10 then [char_of (48 + n)]
                else str_nat (n div 10) @ [char_of (48 + n mod 10)])"

declare str_nat.simps [simp del]

text \<open>The lines printed for each diagnostic.\<close>

fun message :: "outcome \<Rightarrow> string list" where
  "message Balanced = [''All delimiters are balanced.'']"
| "message (UnmatchedCloser c l k) =
     [''Error: Unmatched '' @ [squote, c, squote] @ '' at line '' @ str_nat l
        @ '', column '' @ str_nat k]"
| "message (MismatchedCloser c l k e ol oc) =
     [''Error: Mismatched delimiter '' @ [squote, c, squote] @ '' at line '' @ str_nat l
        @ '', column '' @ str_nat k @ ''. Expected '' @ [squote, e, squote]
        @ '' (opened at '' @ str_nat ol @ '':'' @ str_nat oc @ '')'']"
| "message (UnclosedOpeners c l k n) =
     [''Error: Unclosed '' @ [squote, c, squote] @ '' at line '' @ str_nat l
        @ '', column '' @ str_nat k,
      ''Total unclosed delimiters: '' @ str_nat n]"

text \<open>
  What \<^verbatim>\<open>open(filepath, 'r')\<close> followed by \<^verbatim>\<open>readlines()\<close> gives: the one exception the
  script catches, any other exception, or the lines of the file.
\<close>

datatype open_result = FileNotFoundError | OtherError | Readlines "string list"

text \<open>
  The whole function, for a file system \<open>fs\<close>: the printed lines, or the exception that
  leaves the function. The script ends by calling it once on a fixed path.
\<close>

definition check_braces :: "(string \<Rightarrow> open_result) \<Rightarrow> string \<Rightarrow> exn + string list" where
  "check_braces fs filepath =
     (case fs filepath of
        FileNotFoundError \<Rightarrow> Inr [''File not found: '' @ filepath]
      | OtherError \<Rightarrow> Inl OtherOpenError
      | Readlines lines \<Rightarrow>
          (case scan lines of Inl e \<Rightarrow> Inl e | Inr r \<Rightarrow> Inr (message r)))"

subsection \<open>Points of the scan\<close>

text \<open>
  To speak about one moment of a run, \<open>reach lines i j st evs\<close> says that the scan of
  \<open>lines\<close> arrives at the top of the inner loop's body for character \<open>j\<close> of line \<open>i\<close>
  (both counted from 0) with the local variables \<open>st\<close>; \<open>j\<close> may also be the length of the
  stripped line, just before the loop leaves it, and \<open>i\<close> the number of lines, after the last
  line. The list \<open>evs\<close> is not part of the script: it records, in order, the opening and
  closing symbols met so far outside strings and comments on steps after which the loop went on.
\<close>

definition counted :: "char \<Rightarrow> scan_state \<Rightarrow> char list" where
  "counted c st =
     (if \<not> in_comment st \<and> \<not> in_string st \<and> (c \<in> set delims_keys \<or> c \<in> set delims_values)
      then [c] else [])"

inductive reach :: "string list \<Rightarrow> nat \<Rightarrow> nat \<Rightarrow> scan_state \<Rightarrow> char list \<Rightarrow> bool"
  for lines :: "string list" where
  start: "reach lines 0 0 init []"
| next_char: "reach lines i j st evs \<Longrightarrow> i < length lines \<Longrightarrow> j < length (rstrip (lines ! i)) \<Longrightarrow>
     step i (rstrip (lines ! i)) j st = Continue st' \<Longrightarrow>
     reach lines i (Suc j) st' (evs @ counted (rstrip (lines ! i) ! j) st)"
| comment: "reach lines i j st evs \<Longrightarrow> i < length lines \<Longrightarrow> j < length (rstrip (lines ! i)) \<Longrightarrow>
     step i (rstrip (lines ! i)) j st = Break \<Longrightarrow>
     reach lines (Suc i) 0 st evs"
| end_of_line: "reach lines i j st evs \<Longrightarrow> i < length lines \<Longrightarrow> j = length (rstrip (lines ! i)) \<Longrightarrow>
     reach lines (Suc i) 0 st evs"

text \<open>What is left of the outer loop from a point of the scan.\<close>

definition resume :: "string list \<Rightarrow> nat \<Rightarrow> nat \<Rightarrow> scan_state \<Rightarrow> loop" where
  "resume lines i j st =
     (if i < length lines then
        (case scan_line i (rstrip (lines ! i)) j st of
           Fallthrough st' \<Rightarrow> scan_lines (Suc i) (drop (Suc i) lines) st'
         | Returned r \<Rightarrow> Returned r
         | Raised e \<Rightarrow> Raised e)
      else Fallthrough st)"

text \<open>Every record on the stack holds an opening symbol.\<close>

definition openers_only :: "scan_state \<Rightarrow> bool" where
  "openers_only st = (\<forall>r \<in> set (stack st). fst r \<in> set delims_keys)"

section \<open>Auxiliary facts\<close>

subsection \<open>Stripping\<close>

lemma rstrip_split: "\<exists>ws. s = rstrip s @ ws \<and> (\<forall>c \<in> set ws. is_space c)"
proof -
  let ?t = "takeWhile is_space (rev s)"
  have "rstrip s @ rev ?t = rev (?t @ dropWhile is_space (rev s))"
    by (simp only: rstrip_def rev_append)
  also have "\<dots> = s" by (simp only: takeWhile_dropWhile_id rev_rev_ident)
  finally have "s = rstrip s @ rev ?t" by (rule sym)
  moreover have "\<forall>c \<in> set (rev ?t). is_space c" by (auto dest: set_takeWhileD)
  ultimately show ?thesis by blast
qed

lemma rstrip_nth: "j < length (rstrip s) \<Longrightarrow> rstrip s ! j = s ! j"
proof -
  assume j: "j < length (rstrip s)"
  obtain ws where "s = rstrip s @ ws" using rstrip_split by blast
  then have "s ! j = (rstrip s @ ws) ! j" by simp
  with j show ?thesis by (simp add: nth_append)
qed

lemma rstrip_keeps: "j < length s \<Longrightarrow> \<not> is_space (s ! j) \<Longrightarrow> j < length (rstrip s)"
proof (rule ccontr)
  assume j: "j < length s" and ns: "\<not> is_space (s ! j)" and "\<not> j < length (rstrip s)"
  then have ge: "length (rstrip s) \<le> j" by simp
  obtain ws where s: "s = rstrip s @ ws" and ws: "\<forall>c \<in> set ws. is_space c"
    using rstrip_split by blast
  from s have "length s = length (rstrip s) + length ws" by (metis length_append)
  with j ge have lt: "j - length (rstrip s) < length ws" by simp
  from s have "s ! j = (rstrip s @ ws) ! j" by simp
  with ge have "s ! j = ws ! (j - length (rstrip s))" by (simp add: nth_append)
  with lt ws have "is_space (s ! j)" by simp
  with ns show False by simp
qed

lemma set_rstrip: "set (rstrip s) \<subseteq> set s"
  by (auto simp: rstrip_def dest: set_dropWhileD)

subsection \<open>The scan from one of its points\<close>

lemma scan_lines_drop: "scan_lines i (drop i lines) st = resume lines i 0 st"
proof (cases "i < length lines")
  case True
  then have "drop i lines = lines ! i # drop (Suc i) lines" by (simp add: Cons_nth_drop_Suc)
  with True show ?thesis by (simp add: resume_def split: loop.splits)
next
  case False
  then show ?thesis by (simp add: resume_def)
qed

lemma resume_continue:
  "i < length lines \<Longrightarrow> j < length (rstrip (lines ! i)) \<Longrightarrow>
   step i (rstrip (lines ! i)) j st = Continue st' \<Longrightarrow>
   resume lines i j st = resume lines i (Suc j) st'"
  by (simp add: resume_def scan_line.simps [of i "rstrip (lines ! i)" j])

lemma resume_break:
  "i < length lines \<Longrightarrow> j < length (rstrip (lines ! i)) \<Longrightarrow>
   step i (rstrip (lines ! i)) j st = Break \<Longrightarrow>
   resume lines i j st = resume lines (Suc i) 0 st"
  by (simp add: resume_def [of lines i] scan_line.simps [of i "rstrip (lines ! i)" j] scan_lines_drop)

lemma resume_end_of_line:
  "i < length lines \<Longrightarrow> resume lines i (length (rstrip (lines ! i))) st = resume lines (Suc i) 0 st"
  by (simp add: resume_def [of lines i] scan_line.simps [of i "rstrip (lines ! i)"] scan_lines_drop)

lemma resume_return:
  "i < length lines \<Longrightarrow> j < length (rstrip (lines ! i)) \<Longrightarrow>
   step i (rstrip (lines ! i)) j st = Return r \<Longrightarrow> resume lines i j st = Returned r"
  by (simp add: resume_def scan_line.simps [of i "rstrip (lines ! i)" j])

lemma reach_resume: "reach lines i j st evs \<Longrightarrow> scan_lines 0 lines init = resume lines i j st"
proof (induction rule: reach.induct)
  case start
  show ?case using scan_lines_drop [of 0 lines init] by simp
next
  case (next_char i j st evs st')
  then show ?case by (simp add: resume_continue)
next
  case (comment i j st evs)
  then show ?case by (simp add: resume_break)
next
  case (end_of_line i j st evs)
  then show ?case by (simp add: resume_end_of_line)
qed

subsection \<open>What holds at every point\<close>

lemma step_in_comment: "step i line j st = Continue st' \<Longrightarrow> in_comment st' = in_comment st"
  by (auto simp: step_def Let_def split: if_splits prod.splits option.splits)

lemma reach_no_comment: "reach lines i j st evs \<Longrightarrow> \<not> in_comment st"
  by (induction rule: reach.induct) (auto simp: init_def dest: step_in_comment)

lemma step_openers_only: "step i line j st = Continue st' \<Longrightarrow> openers_only st \<Longrightarrow> openers_only st'"
  by (fastforce simp: step_def Let_def openers_only_def split: if_splits prod.splits option.splits
      dest: in_set_butlastD)

lemma reach_openers_only: "reach lines i j st evs \<Longrightarrow> openers_only st"
proof (induction rule: reach.induct)
  case start
  show ?case by (simp add: init_def openers_only_def)
qed (auto dest: step_openers_only)

subsection \<open>Single steps\<close>

lemma closer_facts:
  "c \<in> set delims_values \<Longrightarrow>
     \<not> is_space c \<and> c \<noteq> CHR ''/'' \<and> c \<noteq> dquote \<and> c \<noteq> squote \<and> c \<notin> set delims_keys"
  by (auto simp: delims_values_def delims_keys_def delims_def is_space_def dquote_def squote_def)

lemma opener_facts:
  "c \<in> set delims_keys \<Longrightarrow>
     \<not> is_space c \<and> c \<noteq> CHR ''/'' \<and> c \<noteq> dquote \<and> c \<noteq> squote \<and> map_of delims c \<noteq> None"
  by (auto simp: delims_keys_def delims_def is_space_def dquote_def squote_def)

lemma slash_not_space: "\<not> is_space CHR ''/''"
  by (simp add: is_space_def)

lemma step_unmatched:
  "line ! j \<in> set delims_values \<Longrightarrow> \<not> in_comment st \<Longrightarrow> \<not> in_string st \<Longrightarrow> stack st = [] \<Longrightarrow>
   step i line j st = Return (UnmatchedCloser (line ! j) (i + 1) (j + 1))"
  using closer_facts [of "line ! j"] by (simp add: step_def)

lemma step_closer:
  "line ! j \<in> set delims_values \<Longrightarrow> \<not> in_comment st \<Longrightarrow> \<not> in_string st \<Longrightarrow>
   stack st = rest @ [(c0, l0, k0)] \<Longrightarrow> map_of delims c0 = Some e \<Longrightarrow>
   step i line j st =
     (if line ! j \<noteq> e then Return (MismatchedCloser (line ! j) (i + 1) (j + 1) e l0 k0)
      else Continue (st\<lparr>stack := rest\<rparr>))"
  using closer_facts [of "line ! j"] by (simp add: step_def)

lemma scan_of_return:
  assumes "reach lines i j st evs" and "i < length lines" and "j < length (rstrip (lines ! i))"
    and "step i (rstrip (lines ! i)) j st = Return r"
  shows "scan lines = Inr r"
  using assms by (simp add: scan_def reach_resume resume_return)

lemma check_braces_read:
  "fs filepath = Readlines lines \<Longrightarrow> scan lines = Inr r \<Longrightarrow> check_braces fs filepath = Inr (message r)"
  by (simp add: check_braces_def)

section \<open>The claims\<close>

text \<open>
  C1. Whenever the scan of any input arrives at a closing symbol (\<open>}\<close>, \<open>)\<close> or \<open>]\<close>)
  outside a string while the stack is empty, the result of the whole scan is
  \<open>UnmatchedCloser\<close> with that symbol and its line and column counted from 1, whatever
  follows in the input, and the function prints
  \<^verbatim>\<open>Error: Unmatched '<char>' at line <L>, column <C>\<close>. A point of the scan is never
  inside a comment (\<open>reach_no_comment\<close>), so no hypothesis about comments is needed. For
  the input that is the single character \<open>)\<close> the result is \<open>UnmatchedCloser\<close> at line 1,
  column 1.
\<close>

theorem unmatched_closer_stops_scan:
  assumes "reach lines i j st evs" and "i < length lines" and "j < length (lines ! i)"
    and "lines ! i ! j \<in> set delims_values" and "\<not> in_string st" and "stack st = []"
    and "fs filepath = Readlines lines"
  shows "scan lines = Inr (UnmatchedCloser (lines ! i ! j) (i + 1) (j + 1)) \<and>
         check_braces fs filepath =
           Inr [''Error: Unmatched '' @ [squote, lines ! i ! j, squote] @ '' at line ''
                  @ str_nat (i + 1) @ '', column '' @ str_nat (j + 1)] \<and>
         scan ['')''] = Inr (UnmatchedCloser CHR '')'' 1 1)"
proof -
  let ?line = "rstrip (lines ! i)"
  have j: "j < length ?line"
    using assms(3,4) closer_facts rstrip_keeps by blast
  then have c: "?line ! j = lines ! i ! j" by (rule rstrip_nth)
  have "step i ?line j st = Return (UnmatchedCloser (?line ! j) (i + 1) (j + 1))"
    using assms(1,4,5,6) c by (intro step_unmatched) (simp_all add: reach_no_comment)
  with assms(1,2) j c have r: "scan lines = Inr (UnmatchedCloser (lines ! i ! j) (i + 1) (j + 1))"
    by (simp add: scan_of_return)
  have "check_braces fs filepath = Inr (message (UnmatchedCloser (lines ! i ! j) (i + 1) (j + 1)))"
    using assms(7) r by (rule check_braces_read)
  moreover have "scan ['')''] = Inr (UnmatchedCloser CHR '')'' 1 1)" by code_simp
  ultimately show ?thesis using r by simp
qed

theorem unmatched_closer_stops_scan_witness:
  "reach ['')''] 0 0 init [] \<and> (0::nat) < length ['')''] \<and> (0::nat) < length (['')''] ! 0)
   \<and> ['')''] ! 0 ! 0 \<in> set delims_values \<and> \<not> in_string init \<and> stack init = []
   \<and> scan ['')''] = Inr (UnmatchedCloser CHR '')'' 1 1)
   \<and> check_braces (\<lambda>p. Readlines ['')'']) ''rfb.rs'' = Inr [''Error: Unmatched '' @ [squote, CHR '')'', squote] @ '' at line 1, column 1'']"
proof -
  have h: "['')''] ! 0 ! 0 \<in> set delims_values" "\<not> in_string init" "stack init = []"
    by (simp_all add: delims_values_def delims_def init_def)
  have s: "str_nat (0 + 1) = ''1''" by code_simp
  show ?thesis
    using unmatched_closer_stops_scan [of "['')'']" 0 0 init "[]" "\<lambda>p. Readlines ['')'']" "''rfb.rs''"] h s
    by (simp add: reach.start)
qed

lemma last_stack_opener:
  "openers_only st \<Longrightarrow> stack st = rest @ [(c0, l0, k0)] \<Longrightarrow> \<exists>e. map_of delims c0 = Some e"
  using opener_facts [of c0] by (auto simp: openers_only_def)

text \<open>
  C2. Whenever the scan of any input arrives at a closing symbol outside a string while the
  stack is not empty, the top record \<open>(c0, l0, k0)\<close> is taken off. Its symbol \<open>c0\<close> always
  has a closing symbol \<open>expected\<close> in \<open>delims\<close>. If the character differs from it, the
  result of the whole scan is \<open>MismatchedCloser\<close> with the character, its line and column
  counted from 1, \<open>expected\<close>, and the line and column of the record, whatever follows in
  the input. Otherwise the loop goes on to the next character with the stack without that
  record. For the input \<open>(]\<close> the result is \<open>MismatchedCloser\<close> for \<open>]\<close> at line 1,
  column 2, expected \<open>)\<close>, opened at line 1, column 1.
\<close>

theorem closer_pops_top:
  assumes "reach lines i j st evs" and "i < length lines" and "j < length (lines ! i)"
    and "lines ! i ! j \<in> set delims_values" and "\<not> in_string st"
    and "stack st = rest @ [(c0, l0, k0)]"
  shows "\<exists>expected. map_of delims c0 = Some expected \<and>
           (lines ! i ! j \<noteq> expected \<longrightarrow>
              scan lines = Inr (MismatchedCloser (lines ! i ! j) (i + 1) (j + 1) expected l0 k0)) \<and>
           (lines ! i ! j = expected \<longrightarrow>
              step i (rstrip (lines ! i)) j st = Continue (st\<lparr>stack := rest\<rparr>) \<and>
              reach lines i (Suc j) (st\<lparr>stack := rest\<rparr>) (evs @ [lines ! i ! j])) \<and>
           scan [''(]''] = Inr (MismatchedCloser CHR '']'' 1 2 CHR '')'' 1 1)"
proof -
  let ?line = "rstrip (lines ! i)"
  have j: "j < length ?line"
    using assms(3,4) closer_facts rstrip_keeps by blast
  then have c: "?line ! j = lines ! i ! j" by (rule rstrip_nth)
  have nc: "\<not> in_comment st" using assms(1) by (rule reach_no_comment)
  obtain e where e: "map_of delims c0 = Some e"
    using reach_openers_only [OF assms(1)] assms(6) last_stack_opener by blast
  have s: "step i ?line j st =
      (if ?line ! j \<noteq> e then Return (MismatchedCloser (?line ! j) (i + 1) (j + 1) e l0 k0)
       else Continue (st\<lparr>stack := rest\<rparr>))"
    using assms(4,5,6) c nc e by (intro step_closer) simp_all
  have mis: "scan lines = Inr (MismatchedCloser (lines ! i ! j) (i + 1) (j + 1) e l0 k0)"
    if "lines ! i ! j \<noteq> e"
    using that s c scan_of_return [OF assms(1,2) j] by simp
  have cont: "step i ?line j st = Continue (st\<lparr>stack := rest\<rparr>)" if "lines ! i ! j = e"
    using that s c by simp
  have cnt: "counted (?line ! j) st = [lines ! i ! j]"
    using assms(4,5) nc c by (simp add: counted_def)
  have rch: "reach lines i (Suc j) (st\<lparr>stack := rest\<rparr>) (evs @ [lines ! i ! j])"
    if "lines ! i ! j = e"
    using reach.next_char [OF assms(1,2) j cont [OF that]] cnt by simp
  have ex: "scan [''(]''] = Inr (MismatchedCloser CHR '']'' 1 2 CHR '')'' 1 1)" by code_simp
  from e mis cont rch ex show ?thesis by blast
qed

lemma reach_paren_bracket:
  "reach [''(]''] 0 1 \<lparr>stack = [(CHR ''('', 1, 1)], in_string = False, string_char = [], in_comment = False\<rparr> ''(''"
proof -
  have l: "rstrip (''(]'') = ''(]''" by code_simp
  have "step 0 ''(]'' 0 init = Continue \<lparr>stack = [(CHR ''('', 1, 1)], in_string = False, string_char = [], in_comment = False\<rparr>"
    by code_simp
  moreover have "counted CHR ''('' init = ''(''" by code_simp
  ultimately show ?thesis
    using reach.next_char [OF reach.start, of "[''(]'']" "\<lparr>stack = [(CHR ''('', 1, 1)], in_string = False, string_char = [], in_comment = False\<rparr>"] l
    by simp
qed

theorem closer_pops_top_witness:
  "reach [''(]''] 0 1 \<lparr>stack = [(CHR ''('', 1, 1)], in_string = False, string_char = [], in_comment = False\<rparr> ''(''
   \<and> map_of delims CHR ''('' = Some CHR '')'' \<and> CHR '']'' \<noteq> CHR '')''
   \<and> scan [''(]''] = Inr (MismatchedCloser CHR '']'' 1 2 CHR '')'' 1 1)"
proof -
  let ?st = "\<lparr>stack = [(CHR ''('', 1, 1)], in_string = False, string_char = [], in_comment = False\<rparr>"
  have h: "[''(]''] ! 0 ! 1 \<in> set delims_values" "\<not> in_string ?st" "stack ?st = [] @ [(CHR ''('', 1, 1)]"
    by (simp_all add: delims_values_def delims_def)
  have m: "map_of delims CHR ''('' = Some CHR '')''" by (simp add: delims_def)
  show ?thesis
    using closer_pops_top [OF reach_paren_bracket _ _ h] m reach_paren_bracket by simp
qed

text \<open>
  C3. When both loops run to the end of the input with the variables \<open>st\<close>, the result is
  \<open>Balanced\<close> if the stack is empty, and otherwise \<open>UnclosedOpeners\<close> with the symbol,
  line and column of the record on top of the stack (its last element) and the length of the
  stack. For the input \<open>(\<close> the result is \<open>UnclosedOpeners\<close> for \<open>(\<close> at line 1,
  column 1, with count 1.
\<close>

theorem end_of_input_result:
  assumes "scan_lines 0 lines init = Fallthrough st"
  shows "(stack st = [] \<longrightarrow> scan lines = Inr Balanced) \<and>
         (\<forall>rest c l k. stack st = rest @ [(c, l, k)] \<longrightarrow>
            scan lines = Inr (UnclosedOpeners c l k (length (stack st)))) \<and>
         scan [''(''] = Inr (UnclosedOpeners CHR ''('' 1 1 1)"
proof -
  have "scan [''(''] = Inr (UnclosedOpeners CHR ''('' 1 1 1)" by code_simp
  with assms show ?thesis by (simp add: scan_def)
qed

theorem end_of_input_result_witness:
  "scan_lines 0 [''(''] init = Fallthrough \<lparr>stack = [(CHR ''('', 1, 1)], in_string = False, string_char = [], in_comment = False\<rparr>
   \<and> scan [''(''] = Inr (UnclosedOpeners CHR ''('' 1 1 1)
   \<and> scan_lines 0 [''()''] init = Fallthrough init \<and> scan [''()''] = Inr Balanced"
proof -
  let ?st = "\<lparr>stack = [(CHR ''('', 1, 1)], in_string = False, string_char = [], in_comment = False\<rparr>"
  have a: "scan_lines 0 [''(''] init = Fallthrough ?st" by code_simp
  have b: "scan_lines 0 [''()''] init = Fallthrough init" by code_simp
  have c: "stack init = []" by (simp add: init_def)
  show ?thesis
    using end_of_input_result [OF a] end_of_input_result [OF b] a b c by simp
qed

lemma scan_line_continue:
  "j < length line \<Longrightarrow> step i line j st = Continue st' \<Longrightarrow>
   scan_line i line j st = scan_line i line (Suc j) st'"
  by (simp add: scan_line.simps [of i line j])

text \<open>
  C4. A delimiter met while \<open>in_string\<close> is set leaves all variables as they are, the stack
  included, and the loop goes on with the next character: nothing is pushed and nothing is
  compared with the stack. A quote character never changes the stack and never ends the scan,
  whatever the variables are. For the one-line input \<open>"("\<close> the result is \<open>Balanced\<close>.
\<close>

theorem delimiters_in_string_ignored:
  assumes "j < length line"
  shows "(in_string st \<and> (line ! j \<in> set delims_keys \<or> line ! j \<in> set delims_values) \<longrightarrow>
            step i line j st = Continue st \<and>
            scan_line i line j st = scan_line i line (Suc j) st) \<and>
         (line ! j = dquote \<or> line ! j = squote \<longrightarrow>
            (\<exists>st'. step i line j st = Continue st' \<and> stack st' = stack st)) \<and>
         scan [[dquote, CHR ''('', dquote]] = Inr Balanced"
proof -
  have a: "step i line j st = Continue st"
    if "in_string st" and "line ! j \<in> set delims_keys \<or> line ! j \<in> set delims_values"
    using that opener_facts [of "line ! j"] closer_facts [of "line ! j"]
    by (auto simp: step_def Let_def)
  have b: "\<exists>st'. step i line j st = Continue st' \<and> stack st' = stack st"
    if "line ! j = dquote \<or> line ! j = squote"
    using that by (auto simp: step_def Let_def dquote_def squote_def)
  have c: "scan [[dquote, CHR ''('', dquote]] = Inr Balanced" by code_simp
  from a b c scan_line_continue [OF assms] show ?thesis by metis
qed

theorem delimiters_in_string_ignored_witness:
  "(1::nat) < length [dquote, CHR ''('', dquote]
   \<and> [dquote, CHR ''('', dquote] ! 1 \<in> set delims_keys
   \<and> step 0 [dquote, CHR ''('', dquote] 1
        \<lparr>stack = [], in_string = True, string_char = [dquote], in_comment = False\<rparr>
      = Continue \<lparr>stack = [], in_string = True, string_char = [dquote], in_comment = False\<rparr>
   \<and> [dquote, CHR ''('', dquote] ! 2 = dquote
   \<and> (\<exists>st'. step 0 [dquote, CHR ''('', dquote] 2
        \<lparr>stack = [], in_string = True, string_char = [dquote], in_comment = False\<rparr> = Continue st'
        \<and> stack st' = [])
   \<and> scan [[dquote, CHR ''('', dquote]] = Inr Balanced"
proof -
  let ?st = "\<lparr>stack = [], in_string = True, string_char = [dquote], in_comment = False\<rparr>"
  let ?line = "[dquote, CHR ''('', dquote]"
  have k: "?line ! 1 \<in> set delims_keys" by (simp add: delims_keys_def delims_def)
  show ?thesis
    using delimiters_in_string_ignored [of 1 ?line ?st 0]
      delimiters_in_string_ignored [of 2 ?line ?st 0] k
    by simp
qed

lemma step_comment_start:
  "j + 1 < length line \<Longrightarrow> line ! j = CHR ''/'' \<Longrightarrow> line ! (j + 1) = CHR ''/'' \<Longrightarrow>
   \<not> in_comment st \<Longrightarrow> step i line j st = Break"
  by (simp add: step_def)

text \<open>
  C5. Whenever the scan of any input arrives at a \<open>/\<close> that is followed by another \<open>/\<close> on
  the same line, the inner loop is left at once with the variables unchanged, whether
  \<open>in_string\<close> is set or not: the rest of the scan is the scan of the following lines from
  these same variables. The flag \<open>in_comment\<close> is not set at any point of a scan, so the
  comment ends with its line. For the input \<open>// (\<close> the result is \<open>Balanced\<close>; for
  \<open>"//"(\<close> it is \<open>Balanced\<close> too, since the test for \<open>//\<close> comes before the test for a
  string; for the two lines \<open>// (\<close> and \<open>)\<close> the closing symbol of the second line is
  reported.
\<close>

theorem line_comment_skips_rest:
  assumes "reach lines i j st evs" and "i < length lines" and "j + 1 < length (lines ! i)"
    and "lines ! i ! j = CHR ''/''" and "lines ! i ! (j + 1) = CHR ''/''"
  shows "\<not> in_comment st \<and>
         step i (rstrip (lines ! i)) j st = Break \<and>
         scan_line i (rstrip (lines ! i)) j st = Fallthrough st \<and>
         scan_lines 0 lines init = scan_lines (Suc i) (drop (Suc i) lines) st \<and>
         reach lines (Suc i) 0 st evs \<and>
         scan [''// (''] = Inr Balanced \<and>
         scan [[dquote] @ ''//'' @ [dquote] @ ''(''] = Inr Balanced \<and>
         scan [''// ('', '')''] = Inr (UnmatchedCloser CHR '')'' 2 1)"
proof -
  let ?line = "rstrip (lines ! i)"
  have nc: "\<not> in_comment st" using assms(1) by (rule reach_no_comment)
  have j1: "j + 1 < length ?line"
    using assms(3,5) slash_not_space rstrip_keeps [of "j + 1" "lines ! i"] by simp
  then have j: "j < length ?line" by simp
  have c: "?line ! j = CHR ''/''" "?line ! (j + 1) = CHR ''/''"
    using j j1 assms(4,5) by (simp_all add: rstrip_nth)
  have b: "step i ?line j st = Break"
    using j1 c nc by (rule step_comment_start)
  have f: "scan_line i ?line j st = Fallthrough st"
    using j b by (simp add: scan_line.simps [of i ?line j])
  have "scan_lines 0 lines init = resume lines i j st"
    using assms(1) by (rule reach_resume)
  also have "\<dots> = resume lines (Suc i) 0 st"
    using assms(2) j b by (rule resume_break)
  also have "\<dots> = scan_lines (Suc i) (drop (Suc i) lines) st"
    by (simp add: scan_lines_drop)
  finally have s: "scan_lines 0 lines init = scan_lines (Suc i) (drop (Suc i) lines) st" .
  have r: "reach lines (Suc i) 0 st evs"
    using assms(1,2) j b by (rule reach.comment)
  have e1: "scan [''// (''] = Inr Balanced" by code_simp
  have e2: "scan [[dquote] @ ''//'' @ [dquote] @ ''(''] = Inr Balanced" by code_simp
  have e3: "scan [''// ('', '')''] = Inr (UnmatchedCloser CHR '')'' 2 1)" by code_simp
  from nc b f s r e1 e2 e3 show ?thesis by simp
qed

theorem line_comment_skips_rest_witness:
  "reach [''// (''] 0 0 init [] \<and> (0::nat) < length [''// (''] \<and> 0 + 1 < length ([''// (''] ! 0)
   \<and> [''// (''] ! 0 ! 0 = CHR ''/'' \<and> [''// (''] ! 0 ! (0 + 1) = CHR ''/''
   \<and> step 0 (rstrip ([''// (''] ! 0)) 0 init = Break
   \<and> scan_lines 0 [''// (''] init = scan_lines (Suc 0) (drop (Suc 0) [''// (''])  init
   \<and> reach [''// (''] (Suc 0) 0 init []
   \<and> scan [''// (''] = Inr Balanced"
  using line_comment_skips_rest [of "[''// ('']" 0 0 init "[]"]
  by (simp add: reach.start)

lemma step_in_string_other:
  "in_string st \<Longrightarrow> string_char st = [q] \<Longrightarrow> line ! j \<noteq> q \<Longrightarrow>
   step i line j st = Continue st \<or> step i line j st = Break"
  by (auto simp: step_def Let_def)

lemma scan_line_in_string:
  "in_string st \<Longrightarrow> string_char st = [q] \<Longrightarrow> q \<notin> set line \<Longrightarrow>
   scan_line i line j st = Fallthrough st"
proof (induction i line j st rule: scan_line.induct)
  case (1 i line j st)
  show ?case
  proof (cases "j < length line")
    case True
    then have "line ! j \<noteq> q" using "1.prems"(3) nth_mem by metis
    then consider "step i line j st = Continue st" | "step i line j st = Break"
      using "1.prems"(1,2) step_in_string_other by blast
    then show ?thesis
    proof cases
      case 1
      from "1.IH" [OF True 1 "1.prems"] True 1 show ?thesis
        by (simp add: scan_line.simps [of i line j])
    next
      case 2
      with True show ?thesis by (simp add: scan_line.simps [of i line j])
    qed
  next
    case False
    then show ?thesis by (simp add: scan_line.simps [of i line j])
  qed
qed

lemma scan_lines_in_string:
  "in_string st \<Longrightarrow> string_char st = [q] \<Longrightarrow> \<forall>l \<in> set ls. q \<notin> set l \<Longrightarrow>
   scan_lines k (ls @ rest) st = scan_lines (k + length ls) rest st"
proof (induction ls arbitrary: k)
  case Nil
  show ?case by simp
next
  case (Cons l ls)
  have "q \<notin> set (rstrip l)" using Cons.prems(3) set_rstrip [of l] by auto
  then have "scan_line k (rstrip l) 0 st = Fallthrough st"
    using Cons.prems(1,2) by (intro scan_line_in_string)
  moreover have "scan_lines (Suc k) (ls @ rest) st = scan_lines (Suc k + length ls) rest st"
    using Cons.prems by (intro Cons.IH) simp_all
  ultimately show ?case by simp
qed

text \<open>
  C6. The variables at the end of a line, \<open>in_string\<close> and \<open>string_char\<close> included, are
  the variables at the start of the next line. So when a line \<open>l\<close> ends with \<open>in_string\<close> set
  and the string was opened by the quote \<open>q\<close>, any following lines \<open>ls\<close> that do not contain
  \<open>q\<close> are passed over with the variables unchanged, whatever delimiters they contain, and
  the scan goes on after them still inside the string. For the two lines \<open>"(\<close> and \<open>)\<close> the
  result is \<open>Balanced\<close>.
\<close>

theorem string_state_crosses_lines:
  assumes "scan_line i (rstrip l) 0 st0 = Fallthrough st" and "in_string st"
    and "string_char st = [q]" and "\<forall>l' \<in> set ls. q \<notin> set l'"
  shows "scan_lines i (l # ls @ rest) st0 = scan_lines (Suc i + length ls) rest st \<and>
         scan [[dquote, CHR ''(''], '')''] = Inr Balanced"
proof -
  have "scan_lines i (l # ls @ rest) st0 = scan_lines (Suc i) (ls @ rest) st"
    using assms(1) by simp
  also have "\<dots> = scan_lines (Suc i + length ls) rest st"
    using assms(2,3,4) by (rule scan_lines_in_string)
  finally have "scan_lines i (l # ls @ rest) st0 = scan_lines (Suc i + length ls) rest st" .
  moreover have "scan [[dquote, CHR ''(''], '')''] = Inr Balanced" by code_simp
  ultimately show ?thesis by simp
qed

theorem string_state_crosses_lines_witness:
  "scan_line 0 (rstrip [dquote, CHR ''('']) 0 init
     = Fallthrough \<lparr>stack = [], in_string = True, string_char = [dquote], in_comment = False\<rparr>
   \<and> dquote \<notin> set '')''
   \<and> scan_lines 0 [[dquote, CHR ''(''], '')''] init
     = Fallthrough \<lparr>stack = [], in_string = True, string_char = [dquote], in_comment = False\<rparr>
   \<and> scan [[dquote, CHR ''(''], '')''] = Inr Balanced"
proof -
  let ?st = "\<lparr>stack = [], in_string = True, string_char = [dquote], in_comment = False\<rparr>"
  have a: "scan_line 0 (rstrip [dquote, CHR ''('']) 0 init = Fallthrough ?st" by code_simp
  have b: "\<forall>l' \<in> set ['')'']. dquote \<notin> set l'" by (simp add: dquote_def)
  show ?thesis
    using string_state_crosses_lines [OF a _ _ b, of "[]"] a b by (simp add: dquote_def)
qed

text \<open>
  C7. Inside a string, at a quote character equal to the one that opened the string: if it
  is not the first character of its line and the character before it on the line is a
  backslash, the variables stay as they are and the scan remains inside the string, whatever
  stands before that backslash; if it is the first character of its line or the character
  before it is not a backslash, \<open>in_string\<close> is cleared. For the one-line input
  \<open>"\\" (\<close> (quote, two backslashes, quote, space, parenthesis) the result is \<open>Balanced\<close>;
  for the two lines quote-backslash and quote-space-parenthesis the quote at column 1 of the
  second line closes the string and the parenthesis after it is reported as unclosed.
\<close>

theorem escaped_quote_naive:
  assumes "j < length line" and "in_string st" and "\<not> in_comment st"
    and "line ! j = dquote \<or> line ! j = squote" and "string_char st = [line ! j]"
  shows "(0 < j \<and> line ! (j - 1) = backslash \<longrightarrow> step i line j st = Continue st) \<and>
         (j = 0 \<or> line ! (j - 1) \<noteq> backslash \<longrightarrow>
            step i line j st = Continue (st\<lparr>in_string := False\<rparr>)) \<and>
         scan [[dquote, backslash, backslash, dquote] @ '' (''] = Inr Balanced \<and>
         scan [[dquote, backslash], [dquote] @ '' (''] = Inr (UnclosedOpeners CHR ''('' 2 3 1)"
proof -
  have q: "line ! j \<noteq> CHR ''/''" using assms(4) by (auto simp: dquote_def squote_def)
  have a: "step i line j st = Continue st" if "0 < j \<and> line ! (j - 1) = backslash"
    using that assms q by (auto simp: step_def Let_def)
  have b: "step i line j st = Continue (st\<lparr>in_string := False\<rparr>)"
    if "j = 0 \<or> line ! (j - 1) \<noteq> backslash"
    using that assms q by (auto simp: step_def Let_def)
  have c: "scan [[dquote, backslash, backslash, dquote] @ '' (''] = Inr Balanced" by code_simp
  have d: "scan [[dquote, backslash], [dquote] @ '' (''] = Inr (UnclosedOpeners CHR ''('' 2 3 1)"
    by code_simp
  from a b c d show ?thesis by blast
qed

theorem escaped_quote_naive_witness:
  "step 0 ([dquote, backslash, backslash, dquote] @ '' ('') 3
      \<lparr>stack = [], in_string = True, string_char = [dquote], in_comment = False\<rparr>
     = Continue \<lparr>stack = [], in_string = True, string_char = [dquote], in_comment = False\<rparr>
   \<and> step 1 ([dquote] @ '' ('') 0
      \<lparr>stack = [], in_string = True, string_char = [dquote], in_comment = False\<rparr>
     = Continue \<lparr>stack = [], in_string = False, string_char = [dquote], in_comment = False\<rparr>
   \<and> scan [[dquote, backslash, backslash, dquote] @ '' (''] = Inr Balanced"
proof -
  let ?st = "\<lparr>stack = [], in_string = True, string_char = [dquote], in_comment = False\<rparr>"
  show ?thesis
    using escaped_quote_naive [of 3 "[dquote, backslash, backslash, dquote] @ '' (''" ?st 0]
      escaped_quote_naive [of 0 "[dquote] @ '' (''" ?st 1]
    by simp
qed

lemma step_stack_change:
  assumes "step i line j st = Continue st'"
  shows "(counted (line ! j) st = [] \<and> stack st' = stack st) \<or>
         (line ! j \<in> set delims_keys \<and> counted (line ! j) st = [line ! j] \<and>
            stack st' = stack st @ [(line ! j, i + 1, j + 1)]) \<or>
         (line ! j \<in> set delims_values \<and> line ! j \<notin> set delims_keys \<and>
            counted (line ! j) st = [line ! j] \<and>
            stack st \<noteq> [] \<and> stack st' = butlast (stack st))"
proof -
  have q: "\<not> (line ! j = dquote \<or> line ! j = squote)"
    if "line ! j \<in> set delims_keys \<or> line ! j \<in> set delims_values"
    using that opener_facts [of "line ! j"] closer_facts [of "line ! j"] by blast
  have v: "line ! j \<notin> set delims_keys" if "line ! j \<in> set delims_values"
    using that closer_facts by blast
  show ?thesis
    using assms q v
    by (auto simp: step_def Let_def counted_def split: if_splits prod.splits option.splits)
qed

lemma tally_step:
  assumes "step i line j st = Continue st'"
    and "length (stack st) + length (filter (\<lambda>c. c \<in> set delims_values) evs)
           = length (filter (\<lambda>c. c \<in> set delims_keys) evs)"
  shows "length (stack st') + length (filter (\<lambda>c. c \<in> set delims_values) (evs @ counted (line ! j) st))
           = length (filter (\<lambda>c. c \<in> set delims_keys) (evs @ counted (line ! j) st))"
proof -
  have k: "c \<notin> set delims_values" if "c \<in> set delims_keys" for c
    using that closer_facts by blast
  from step_stack_change [OF assms(1)] show ?thesis
  proof (elim disjE conjE)
    assume "counted (line ! j) st = []" "stack st' = stack st"
    with assms(2) show ?thesis by simp
  next
    assume "line ! j \<in> set delims_keys" "counted (line ! j) st = [line ! j]"
      "stack st' = stack st @ [(line ! j, i + 1, j + 1)]"
    with assms(2) k show ?thesis by simp
  next
    assume p: "line ! j \<in> set delims_values" "line ! j \<notin> set delims_keys"
      "counted (line ! j) st = [line ! j]" "stack st' = butlast (stack st)"
    assume ne: "stack st \<noteq> []"
    have f: "length (filter (\<lambda>c. c \<in> set delims_values) (evs @ counted (line ! j) st))
        = length (filter (\<lambda>c. c \<in> set delims_values) evs) + 1"
      using p by simp
    have g: "length (filter (\<lambda>c. c \<in> set delims_keys) (evs @ counted (line ! j) st))
        = length (filter (\<lambda>c. c \<in> set delims_keys) evs)"
      using p by simp
    have l: "length (stack st') + 1 = length (stack st)"
      using p(4) ne by (cases "stack st") simp_all
    from f g l assms(2) show ?thesis by linarith
  qed
qed

lemma step_never_raises: "openers_only st \<Longrightarrow> step i line j st \<noteq> Raise e"
proof -
  assume o: "openers_only st"
  have "map_of delims c \<noteq> None" if "stack st \<noteq> []" and "last (stack st) = (c, l, k)" for c l k
  proof -
    from that have "(c, l, k) \<in> set (stack st)" using last_in_set by metis
    with o have "c \<in> set delims_keys" by (auto simp: openers_only_def)
    then show ?thesis using opener_facts by blast
  qed
  then show ?thesis
    by (auto simp: step_def Let_def split: if_splits prod.splits option.splits)
qed

lemma scan_line_never_raises:
  "openers_only st \<Longrightarrow>
   scan_line i line j st \<noteq> Raised e \<and>
   (\<forall>st'. scan_line i line j st = Fallthrough st' \<longrightarrow> openers_only st')"
proof (induction i line j st rule: scan_line.induct)
  case (1 i line j st)
  show ?case
  proof (cases "j < length line")
    case True
    show ?thesis
    proof (cases "step i line j st")
      case (Continue st')
      with "1.prems" have "openers_only st'" by (blast dest: step_openers_only)
      with "1.IH" [OF True Continue] True Continue show ?thesis
        by (simp add: scan_line.simps [of i line j])
    next
      case Break
      with True "1.prems" show ?thesis by (simp add: scan_line.simps [of i line j])
    next
      case (Return r)
      with True show ?thesis by (simp add: scan_line.simps [of i line j])
    next
      case (Raise e')
      with "1.prems" show ?thesis using step_never_raises by blast
    qed
  next
    case False
    with "1.prems" show ?thesis by (simp add: scan_line.simps [of i line j])
  qed
qed

lemma scan_lines_never_raises: "openers_only st \<Longrightarrow> scan_lines i lines st \<noteq> Raised e"
proof (induction lines arbitrary: i st)
  case Nil
  show ?case by simp
next
  case (Cons l ls)
  from scan_line_never_raises [OF Cons.prems, of i "rstrip l" 0 e] Cons.IH show ?case
    by (auto split: loop.splits)
qed

lemma scan_never_raises: "\<exists>r. scan lines = Inr r"
proof -
  have "openers_only init" by (simp add: openers_only_def init_def)
  then have "scan_lines 0 lines init \<noteq> Raised e" for e by (rule scan_lines_never_raises)
  then show ?thesis by (auto simp: scan_def split: loop.splits prod.splits)
qed

text \<open>
  C8. The stack is empty before the first character. At every point of the scan of any
  input its length, plus the number of closing symbols met so far outside strings and
  comments, equals the number of opening symbols met so far outside strings and comments:
  its size is the number of openers not yet closed, and the closers never outnumber the
  openers. One pass through the loop body leaves the stack as it is, appends the record of
  the current character, or removes the last record of a stack that is not empty; the script
  never pops an empty stack, and by \<open>scan_never_raises\<close> no exception leaves the scan.
\<close>

theorem stack_discipline:
  assumes "reach lines i j st evs"
  shows "stack init = [] \<and>
         length (stack st) + length (filter (\<lambda>c. c \<in> set delims_values) evs)
           = length (filter (\<lambda>c. c \<in> set delims_keys) evs) \<and>
         length (filter (\<lambda>c. c \<in> set delims_values) evs)
           \<le> length (filter (\<lambda>c. c \<in> set delims_keys) evs) \<and>
         (\<forall>st'. step i (rstrip (lines ! i)) j st = Continue st' \<longrightarrow>
            stack st' = stack st \<or>
            stack st' = stack st @ [(rstrip (lines ! i) ! j, i + 1, j + 1)] \<or>
            (stack st \<noteq> [] \<and> stack st' = butlast (stack st)))"
proof -
  have pop: "stack st' = stack st \<or>
      stack st' = stack st @ [(rstrip (lines ! i) ! j, i + 1, j + 1)] \<or>
      (stack st \<noteq> [] \<and> stack st' = butlast (stack st))"
    if "step i (rstrip (lines ! i)) j st = Continue st'" for st'
    using step_stack_change [OF that] by blast
  have "length (stack st) + length (filter (\<lambda>c. c \<in> set delims_values) evs)
          = length (filter (\<lambda>c. c \<in> set delims_keys) evs)"
    using assms
  proof (induction rule: reach.induct)
    case start
    show ?case by (simp add: init_def)
  next
    case (next_char i j st evs st')
    from next_char.hyps(4) next_char.IH show ?case by (rule tally_step)
  next
    case (comment i j st evs)
    then show ?case by simp
  next
    case (end_of_line i j st evs)
    then show ?case by simp
  qed
  with pop show ?thesis by (simp add: init_def)
qed

lemma reach_two_open_one_closed:
  "reach [''(()''] 0 3
     \<lparr>stack = [(CHR ''('', 1, 1)], in_string = False, string_char = [], in_comment = False\<rparr> ''(()''"
proof -
  let ?s1 = "\<lparr>stack = [(CHR ''('', 1, 1)], in_string = False, string_char = [], in_comment = False\<rparr>"
  let ?s2 = "\<lparr>stack = [(CHR ''('', 1, 1), (CHR ''('', 1, 2)], in_string = False, string_char = [],
               in_comment = False\<rparr>"
  have l: "rstrip ''(()'' = ''(()''" by code_simp
  have c1: "counted CHR ''('' init = ''(''" by code_simp
  have c2: "counted CHR ''('' ?s1 = ''(''" by code_simp
  have c3: "counted CHR '')'' ?s2 = '')''" by code_simp
  have "step 0 ''(()'' 0 init = Continue ?s1" by code_simp
  then have r1: "reach [''(()''] 0 (Suc 0) ?s1 ''(''"
    using reach.next_char [OF reach.start, of "[''(()'']" ?s1] l c1 by simp
  have "step 0 ''(()'' (Suc 0) ?s1 = Continue ?s2" by code_simp
  then have r2: "reach [''(()''] 0 (Suc (Suc 0)) ?s2 ''((''"
    using reach.next_char [OF r1, of ?s2] l c2 by simp
  have "step 0 ''(()'' (Suc (Suc 0)) ?s2 = Continue ?s1" by code_simp
  then have "reach [''(()''] 0 (Suc (Suc (Suc 0))) ?s1 ''(()''"
    using reach.next_char [OF r2, of ?s1] l c3 by simp
  then show ?thesis by (simp add: numeral_3_eq_3)
qed

theorem stack_discipline_witness:
  "reach [''(()''] 0 3
     \<lparr>stack = [(CHR ''('', 1, 1)], in_string = False, string_char = [], in_comment = False\<rparr> ''(()''
   \<and> length [(CHR ''('', 1::nat, 1::nat)] + length (filter (\<lambda>c. c \<in> set delims_values) ''(()'')
       = length (filter (\<lambda>c. c \<in> set delims_keys) ''(()'')
   \<and> length (filter (\<lambda>c. c \<in> set delims_keys) ''(()'') = 2"
proof -
  have "length (filter (\<lambda>c. c \<in> set delims_keys) ''(()'') = 2"
    by (simp add: delims_keys_def delims_def)
  then show ?thesis
    using stack_discipline [OF reach_two_open_one_closed] reach_two_open_one_closed by simp
qed

text \<open>
  C9. When opening the file raises \<^verbatim>\<open>FileNotFoundError\<close>, the function prints the single
  line \<^verbatim>\<open>File not found: <path>\<close> and returns: the output is that line alone, and it is
  none of the four messages the scan can print.
\<close>

theorem file_not_found_message:
  assumes "fs filepath = FileNotFoundError"
  shows "check_braces fs filepath = Inr [''File not found: '' @ filepath] \<and>
         (\<forall>r. check_braces fs filepath \<noteq> Inr (message r))"
proof -
  have a: "check_braces fs filepath = Inr [''File not found: '' @ filepath]"
    using assms by (simp add: check_braces_def)
  have "[''File not found: '' @ filepath] \<noteq> message r" for r
    by (cases r) simp_all
  with a show ?thesis by simp
qed

theorem file_not_found_message_witness:
  "check_braces (\<lambda>p. FileNotFoundError) ''rfb.rs'' = Inr [''File not found: rfb.rs'']"
  using file_not_found_message [of "\<lambda>p. FileNotFoundError" "''rfb.rs''"] by simp

text \<open>
  C10. When the loops run to the end of the input with \<open>in_string\<close> still set, the result
  is the one that any input ending with the same stack gives, string closed or not: it is
  \<open>Balanced\<close> or \<open>UnclosedOpeners\<close>, and nothing reports the open string. The one-line
  input \<open>"abc\<close> gives \<open>Balanced\<close>, and \<open>("abc\<close> gives \<open>UnclosedOpeners\<close> for \<open>(\<close> at
  line 1, column 1, with count 1.
\<close>

theorem unterminated_string_silent:
  assumes "scan_lines 0 lines init = Fallthrough st" and "in_string st"
    and "scan_lines 0 lines' init = Fallthrough st'" and "stack st' = stack st"
  shows "scan lines = scan lines' \<and>
         (scan lines = Inr Balanced \<or> (\<exists>c l k n. scan lines = Inr (UnclosedOpeners c l k n))) \<and>
         scan [dquote # ''abc''] = Inr Balanced \<and>
         scan [CHR ''('' # dquote # ''abc''] = Inr (UnclosedOpeners CHR ''('' 1 1 1)"
proof -
  have a: "scan lines = scan lines'"
    using assms(1,3,4) by (simp add: scan_def)
  have b: "scan lines = Inr Balanced \<or> (\<exists>c l k n. scan lines = Inr (UnclosedOpeners c l k n))"
    using assms(1) by (auto simp: scan_def split: prod.splits)
  have c: "scan [dquote # ''abc''] = Inr Balanced" by code_simp
  have d: "scan [CHR ''('' # dquote # ''abc''] = Inr (UnclosedOpeners CHR ''('' 1 1 1)" by code_simp
  from a b c d show ?thesis by simp
qed

theorem unterminated_string_silent_witness:
  "scan_lines 0 [CHR ''('' # dquote # ''abc''] init
     = Fallthrough \<lparr>stack = [(CHR ''('', 1, 1)], in_string = True, string_char = [dquote],
                    in_comment = False\<rparr>
   \<and> scan_lines 0 [''(''] init
     = Fallthrough \<lparr>stack = [(CHR ''('', 1, 1)], in_string = False, string_char = [],
                    in_comment = False\<rparr>
   \<and> scan [CHR ''('' # dquote # ''abc''] = scan [''('']
   \<and> scan [CHR ''('' # dquote # ''abc''] = Inr (UnclosedOpeners CHR ''('' 1 1 1)"
proof -
  let ?st = "\<lparr>stack = [(CHR ''('', 1, 1)], in_string = True, string_char = [dquote],
               in_comment = False\<rparr>"
  let ?st' = "\<lparr>stack = [(CHR ''('', 1, 1)], in_string = False, string_char = [],
               in_comment = False\<rparr>"
  have a: "scan_lines 0 [CHR ''('' # dquote # ''abc''] init = Fallthrough ?st" by code_simp
  have b: "scan_lines 0 [''(''] init = Fallthrough ?st'" by code_simp
  have h: "in_string ?st" "stack ?st' = stack ?st" by simp_all
  from unterminated_string_silent [OF a h(1) b h(2)] a b show ?thesis by blast
qed

end
